theory Spec2Isabelle
  imports Main "HOL-Library.Sublist"
begin

section \<open>Exceptions\<close>

text \<open>
  The Python exceptions that the modelled code can raise. \<open>SystemExit n\<close> is what
  \<^verbatim>\<open>sys.exit(n)\<close> raises; its argument is the exit status of the command.
\<close>

datatype exn =
    SystemExit int
  | ZeroDivisionError
  | ValueError
  | UnicodeDecodeError
  | RuntimeError
  | FileExistsError
  | FileNotFoundError
  | OSError

section \<open>The log patterns of \<^verbatim>\<open>IndexCollection.execute\<close>\<close>

text \<open>
  The three patterns are byte patterns, applied with \<^verbatim>\<open>re.match\<close> (anchored at the
  start of the line only). Each of them is a sequence of items, an item being a set of
  bytes with a quantifier: a literal byte, \<^verbatim>\<open>.\<close> (any byte but a newline),
  \<^verbatim>\<open>\d\<close> (an ASCII digit, the pattern being a bytes pattern) or \<^verbatim>\<open>[\d,]\<close>; taken once,
  or under a greedy \<^verbatim>\<open>*\<close> or \<^verbatim>\<open>+\<close>. An item can be the capture group.
\<close>

datatype cls = Lit char | Dot | Digit | DigitComma

datatype quant = Once | Star | Plus

type_synonym item = "cls \<times> quant \<times> bool"

fun accepts :: "cls \<Rightarrow> char \<Rightarrow> bool" where
  "accepts (Lit c) x = (x = c)"
| "accepts Dot x = (x \<noteq> CHR ''\<newline>'')"
| "accepts Digit x = (x \<in> set ''0123456789'')"
| "accepts DigitComma x = (x \<in> set ''0123456789,'')"

fun first_some :: "('a \<Rightarrow> 'b option) \<Rightarrow> 'a list \<Rightarrow> 'b option" where
  "first_some f [] = None"
| "first_some f (x # xs) = (case f x of Some y \<Rightarrow> Some y | None \<Rightarrow> first_some f xs)"

definition capture :: "bool \<Rightarrow> string \<Rightarrow> string \<Rightarrow> string" where
  "capture g taken rest = (if g then taken @ rest else rest)"

text \<open>
  \<open>re_match r s\<close> is \<^verbatim>\<open>r.match(s)\<close>: \<open>None\<close> when the pattern matches no prefix of
  \<open>s\<close>, and otherwise \<open>Some\<close> of what the group captured (the patterns here have at most
  one group). A greedy item takes the longest run it can and gives bytes back one at a
  time until the rest of the pattern matches, as the backtracking matcher does.
\<close>

fun re_match :: "item list \<Rightarrow> string \<Rightarrow> string option" where
  "re_match [] s = Some []"
| "re_match ((c, Once, g) # r) s =
     (case s of
        [] \<Rightarrow> None
      | x # xs \<Rightarrow> if accepts c x then map_option (capture g [x]) (re_match r xs) else None)"
| "re_match ((c, Star, g) # r) s =
     first_some (\<lambda>k. map_option (capture g (take k s)) (re_match r (drop k s)))
       (rev [0 ..< Suc (length (takeWhile (accepts c) s))])"
| "re_match ((c, Plus, g) # r) s =
     first_some (\<lambda>k. map_option (capture g (take k s)) (re_match r (drop k s)))
       (rev [1 ..< Suc (length (takeWhile (accepts c) s))])"

definition lits :: "string \<Rightarrow> item list" where
  "lits s = map (\<lambda>c. (Lit c, Once, False)) s"

definition RE_FILES :: "item list" where
  "RE_FILES =
     [(Dot, Star, False)] @ lits ''index.IndexCollection (IndexCollection''
     @ [(Dot, Once, False)] @ lits ''java:'' @ [(Digit, Plus, False)] @ lits '') - ''
     @ [(DigitComma, Plus, True)] @ lits '' files found''"

definition RE_FILE :: "item list" where
  "RE_FILE =
     [(Dot, Star, False)] @ lits ''index.IndexCollection$LocalIndexerThread (IndexCollection''
     @ [(Dot, Once, False)] @ lits ''java:'' @ [(Digit, Plus, False)] @ lits '')''
     @ [(Dot, Star, False)] @ lits '' docs added'' @ [(Dot, Once, False)]"

definition RE_COMPLETE :: "item list" where
  "RE_COMPLETE =
     [(Dot, Star, False)] @ lits ''IndexCollection.java'' @ [(Dot, Star, False)]
     @ lits ''Indexing Complete'' @ [(Dot, Star, False)] @ lits ''documents indexed''"

definition matches :: "item list \<Rightarrow> string \<Rightarrow> bool" where
  "matches r s = (re_match r s \<noteq> None)"

section \<open>Conversions used by the supervisor\<close>

text \<open>
  \<^verbatim>\<open>int(s)\<close> on a string of ASCII digits: the empty string raises \<^verbatim>\<open>ValueError\<close>.
  (The group can only hold digits and commas, and the commas are removed first. No limit
  on the number of digits is modelled.)
\<close>

definition digit_val :: "char \<Rightarrow> nat" where
  "digit_val c = of_char c - 48"

definition py_int :: "string \<Rightarrow> exn + int" where
  "py_int s =
     (if s = [] \<or> (\<exists>c \<in> set s. c \<notin> set ''0123456789'') then Inl ValueError
      else Inr (int (foldl (\<lambda>a c. 10 * a + digit_val c) 0 s)))"

text \<open>\<^verbatim>\<open>"%d" % n\<close> for a natural number: its decimal digits.\<close>

fun dec :: "nat \<Rightarrow> string" where
  "dec n = (if n < 10 then [char_of (48 + n)] else dec (n div 10) @ [char_of (48 + n mod 10)])"

declare dec.simps [simp del]

definition fmt_d :: "int \<Rightarrow> string" where
  "fmt_d n = (if n < 0 then CHR ''-'' # dec (nat (- n)) else dec (nat n))"

text \<open>
  \<^verbatim>\<open>data.decode("utf-8")\<close> raises \<^verbatim>\<open>UnicodeDecodeError\<close> unless the bytes are well-formed
  UTF-8 (no overlong form, no surrogate, nothing above U+10FFFF). The decoded text is
  kept as the bytes it came from.
\<close>

definition byte_in :: "nat \<Rightarrow> nat \<Rightarrow> char \<Rightarrow> bool" where
  "byte_in lo hi c = (lo \<le> of_char c \<and> of_char c \<le> (hi::nat))"

fun utf8_valid :: "string \<Rightarrow> bool" where
  "utf8_valid [] = True"
| "utf8_valid (c # cs) =
     (if byte_in 0x00 0x7F c then utf8_valid cs
      else if byte_in 0xC2 0xDF c then
        (case cs of c1 # r \<Rightarrow> byte_in 0x80 0xBF c1 \<and> utf8_valid r | _ \<Rightarrow> False)
      else if byte_in 0xE0 0xEF c then
        (case cs of
           c1 # c2 # r \<Rightarrow>
             byte_in (if c = CHR 0xE0 then 0xA0 else 0x80) (if c = CHR 0xED then 0x9F else 0xBF) c1
             \<and> byte_in 0x80 0xBF c2 \<and> utf8_valid r
         | _ \<Rightarrow> False)
      else if byte_in 0xF0 0xF4 c then
        (case cs of
           c1 # c2 # c3 # r \<Rightarrow>
             byte_in (if c = CHR 0xF0 then 0x90 else 0x80) (if c = CHR 0xF4 then 0x8F else 0xBF) c1
             \<and> byte_in 0x80 0xBF c2 \<and> byte_in 0x80 0xBF c3 \<and> utf8_valid r
         | _ \<Rightarrow> False)
      else False)"

definition decode_utf8 :: "string \<Rightarrow> exn + string" where
  "decode_utf8 data = (if utf8_valid data then Inr data else Inl UnicodeDecodeError)"

section \<open>The supervisor loop of \<^verbatim>\<open>IndexCollection.execute.run\<close>\<close>

text \<open>
  What the loop sends out, in order: a call \<^verbatim>\<open>progress(a / b)\<close> is \<open>Progress a b\<close> (the
  quotient is kept as the two integers, not rounded to a float), and text written to the
  standard output is \<open>Stdout\<close>.
\<close>

datatype event = Progress int int | Stdout string

record pstate =
  nfiles :: int
  indexedfiles :: int
  complete :: bool
  out :: "event list"

definition init_state :: pstate where
  "init_state = \<lparr>nfiles = - 1, indexedfiles = 0, complete = False, out = []\<rparr>"

text \<open>One iteration of the loop, on a non-empty line \<open>data\<close>.\<close>

definition process_line :: "pstate \<Rightarrow> string \<Rightarrow> exn + pstate" where
  "process_line st data =
     (let m = re_match RE_FILES data;
          st1 = st\<lparr>complete := complete st \<or> matches RE_COMPLETE data\<rparr>
      in case m of
           Some g \<Rightarrow>
             (case py_int (filter (\<lambda>c. c \<noteq> CHR '','') g) of
                Inl e \<Rightarrow> Inl e
              | Inr n \<Rightarrow>
                  Inr (st1\<lparr>nfiles := n, out := out st1 @ [Stdout (fmt_d n @ '' files to index\<newline>'')]\<rparr>))
         | None \<Rightarrow>
             if matches RE_FILE data then
               (let k = indexedfiles st1 + 1
                in if nfiles st1 = 0 then Inl ZeroDivisionError
                   else Inr (st1\<lparr>indexedfiles := k, out := out st1 @ [Progress k (nfiles st1)]\<rparr>))
             else
               (case decode_utf8 data of
                  Inl e \<Rightarrow> Inl e
                | Inr text \<Rightarrow> Inr (st1\<lparr>out := out st1 @ [Stdout text]\<rparr>)))"

text \<open>
  The loop over what \<^verbatim>\<open>readline\<close> returns: it stops at the first empty result (the end
  of the stream), and an exception ends it. \<open>seen\<close> is the part of the input the loop
  gets to when nothing is raised.
\<close>

definition seen :: "string list \<Rightarrow> string list" where
  "seen lines = takeWhile (\<lambda>data. data \<noteq> []) lines"

fun process_lines :: "pstate \<Rightarrow> string list \<Rightarrow> exn + pstate" where
  "process_lines st [] = Inr st"
| "process_lines st (data # rest) =
     (if data = [] then Inr st
      else case process_line st data of Inl e \<Rightarrow> Inl e | Inr st' \<Rightarrow> process_lines st' rest)"

text \<open>The end of \<^verbatim>\<open>run\<close>: the exit status, from the child's return code and the flag.\<close>

definition resolve :: "int \<Rightarrow> bool \<Rightarrow> exn" where
  "resolve returncode compl =
     (if returncode = 0 \<and> \<not> compl then SystemExit 1 else SystemExit returncode)"

text \<open>
  The body of the \<^verbatim>\<open>with\<close> block of \<^verbatim>\<open>run\<close>, given the lines the child prints and its
  return code. It always ends by an exception: \<^verbatim>\<open>SystemExit\<close>, or what the loop raised.
\<close>

definition run_body :: "string list \<Rightarrow> int \<Rightarrow> exn" where
  "run_body lines returncode =
     (case process_lines init_state lines of
        Inl e \<Rightarrow> e
      | Inr st \<Rightarrow> resolve returncode (complete st))"

text \<open>
  A line that the loop counts as one more unit: it matches the per-unit pattern, and not
  the total-count pattern, which is tried first.
\<close>

definition per_unit :: "string \<Rightarrow> bool" where
  "per_unit d = (matches RE_FILE d \<and> \<not> matches RE_FILES d)"

section \<open>The producer of \<^verbatim>\<open>csv_collection\<close>\<close>

text \<open>
  A Python \<^verbatim>\<open>str\<close> is a list of code points. The producer reads the lines of the
  source file (each as the file iterator delivers it, its newline included), and writes
  ASCII text to the channel.
\<close>

type_synonym pystr = "nat list"

definition code_points :: "string \<Rightarrow> pystr" where
  "code_points s = map of_char s"

text \<open>\<^verbatim>\<open>str.isspace\<close> on one code point, as \<^verbatim>\<open>str.strip()\<close> uses it.\<close>

definition isspace :: "nat \<Rightarrow> bool" where
  "isspace c =
     ((0x09 \<le> c \<and> c \<le> 0x0D) \<or> (0x1C \<le> c \<and> c \<le> 0x20) \<or> c = 0x85 \<or> c = 0xA0
      \<or> c = 0x1680 \<or> (0x2000 \<le> c \<and> c \<le> 0x200A) \<or> c = 0x2028 \<or> c = 0x2029
      \<or> c = 0x202F \<or> c = 0x205F \<or> c = 0x3000)"

definition lstrip :: "pystr \<Rightarrow> pystr" where
  "lstrip s = dropWhile isspace s"

definition rstrip :: "pystr \<Rightarrow> pystr" where
  "rstrip s = rev (dropWhile isspace (rev s))"

definition strip :: "pystr \<Rightarrow> pystr" where
  "strip s = rstrip (lstrip s)"

text \<open>
  \<^verbatim>\<open>s.split(sep, 1)\<close>: an empty separator raises \<^verbatim>\<open>ValueError\<close>; otherwise the string
  is cut at the leftmost occurrence of \<open>sep\<close>, if there is one. \<open>split_once\<close> looks for
  that occurrence.
\<close>

fun split_once :: "pystr \<Rightarrow> pystr \<Rightarrow> (pystr \<times> pystr) option" where
  "split_once sep [] = (if sep = [] then Some ([], []) else None)"
| "split_once sep (x # xs) =
     (if prefix sep (x # xs) then Some ([], drop (length sep) (x # xs))
      else map_option (\<lambda>(a, b). (x # a, b)) (split_once sep xs))"

definition py_split1 :: "pystr \<Rightarrow> pystr \<Rightarrow> exn + pystr list" where
  "py_split1 sep s =
     (if sep = [] then Inl ValueError
      else case split_once sep s of None \<Rightarrow> Inr [s] | Some (a, b) \<Rightarrow> Inr [a, b])"

text \<open>
  \<^verbatim>\<open>json.dump\<close> of a dictionary of two strings, with the default settings
  (\<^verbatim>\<open>ensure_ascii\<close>, separators \<^verbatim>\<open>", "\<close> and \<^verbatim>\<open>": "\<close>): every code point outside
  the printable ASCII range, the double quote and the backslash are escaped.
\<close>

definition dquote :: char where
  "dquote = CHR 0x22"

definition backslash :: char where
  "backslash = CHR 0x5C"

definition hexdigit :: "nat \<Rightarrow> char" where
  "hexdigit d = (if d < 10 then char_of (48 + d) else char_of (87 + d))"

definition hex4 :: "nat \<Rightarrow> string" where
  "hex4 n = map hexdigit [n div 4096 mod 16, n div 256 mod 16, n div 16 mod 16, n mod 16]"

definition json_escape :: "nat \<Rightarrow> string" where
  "json_escape c =
     (if c = 0x22 then [backslash, dquote]
      else if c = 0x5C then [backslash, backslash]
      else if c = 0x0A then [backslash, CHR ''n'']
      else if c = 0x0D then [backslash, CHR ''r'']
      else if c = 0x09 then [backslash, CHR ''t'']
      else if c = 0x08 then [backslash, CHR ''b'']
      else if c = 0x0C then [backslash, CHR ''f'']
      else if 0x20 \<le> c \<and> c \<le> 0x7E then [char_of c]
      else if c < 0x10000 then [backslash, CHR ''u''] @ hex4 c
      else (let n = c - 0x10000
            in [backslash, CHR ''u''] @ hex4 (0xD800 + n div 1024 mod 1024)
               @ [backslash, CHR ''u''] @ hex4 (0xDC00 + n mod 1024)))"

definition encode_str :: "pystr \<Rightarrow> string" where
  "encode_str s = [dquote] @ concat (map json_escape s) @ [dquote]"

definition json_dump_doc :: "pystr \<Rightarrow> pystr \<Rightarrow> string" where
  "json_dump_doc docid text =
     ''{'' @ encode_str (code_points ''id'') @ '': '' @ encode_str docid @ '', ''
     @ encode_str (code_points ''contents'') @ '': '' @ encode_str text @ ''}''"

text \<open>
  The state of \<^verbatim>\<open>_generator\<close>: the number of characters read, what has been written to
  the channel, and the calls \<^verbatim>\<open>progress(counter / size)\<close> (numerator and denominator).
  An exception leaves what was written before it on the channel, so the state is
  returned with the exception.
\<close>

record gstate =
  counter :: int
  written :: string
  reports :: "(int \<times> int) list"

definition gen_line :: "pystr \<Rightarrow> int \<Rightarrow> gstate \<Rightarrow> pystr \<Rightarrow> gstate \<times> exn option" where
  "gen_line sep sz st line =
     (let st0 = st\<lparr>counter := counter st + int (length line)\<rparr>
      in if sz = 0 then (st0, Some ZeroDivisionError)
         else
           (let st1 = st0\<lparr>reports := reports st0 @ [(counter st0, sz)]\<rparr>
            in case py_split1 sep (strip line) of
                 Inl e \<Rightarrow> (st1, Some e)
               | Inr [docid, text] \<Rightarrow>
                   (st1\<lparr>written := written st1 @ json_dump_doc docid text @ ''\<newline>''\<rparr>, None)
               | Inr _ \<Rightarrow> (st1, Some ValueError)))"

fun gen_lines :: "pystr \<Rightarrow> int \<Rightarrow> gstate \<Rightarrow> pystr list \<Rightarrow> gstate \<times> exn option" where
  "gen_lines sep sz st [] = (st, None)"
| "gen_lines sep sz st (line # rest) =
     (case gen_line sep sz st line of
        (st', None) \<Rightarrow> gen_lines sep sz st' rest
      | (st', Some e) \<Rightarrow> (st', Some e))"

definition gen_init :: gstate where
  "gen_init = \<lparr>counter = 0, written = [], reports = []\<rparr>"

text \<open>
  \<^verbatim>\<open>_generator(out)\<close> for a source with separator \<open>sep\<close>, of \<open>sz\<close> bytes, holding
  \<open>lines\<close>: what it writes to \<open>out\<close>, and the exception it ends with, if any.
\<close>

definition csv_generator :: "pystr \<Rightarrow> int \<Rightarrow> pystr list \<Rightarrow> string \<times> exn option" where
  "csv_generator sep sz lines =
     (case gen_lines sep sz gen_init lines of (st, e) \<Rightarrow> (written st, e))"

section \<open>\<^verbatim>\<open>StreamGenerator\<close>\<close>

text \<open>
  The file system is the set of the paths that exist. \<open>mkdtemp d\<close> is \<^verbatim>\<open>tempfile.mkdtemp()\<close>
  returning the name \<open>d\<close>, an absolute path with no trailing slash.
\<close>

definition mkdtemp :: "string \<Rightarrow> string set \<Rightarrow> exn + string set" where
  "mkdtemp d f = (if d \<in> f then Inl FileExistsError else Inr (insert d f))"

definition mkfifo :: "string \<Rightarrow> string set \<Rightarrow> exn + string set" where
  "mkfifo p f = (if p \<in> f then Inl FileExistsError else Inr (insert p f))"

definition unlink :: "string \<Rightarrow> string set \<Rightarrow> exn + string set" where
  "unlink p f = (if p \<in> f then Inr (f - {p}) else Inl FileNotFoundError)"

definition rmdir :: "string \<Rightarrow> string set \<Rightarrow> exn + string set" where
  "rmdir d f =
     (if d \<notin> f then Inl FileNotFoundError
      else if \<exists>p \<in> f. prefix (d @ ''/'') p then Inl OSError
      else Inr (f - {d}))"

text \<open>
  The thread of a \<^verbatim>\<open>StreamGenerator\<close>: not started, running, or finished. An exception
  that ends \<^verbatim>\<open>Thread.run\<close> is handled by the threading machinery (it is printed); the
  thread is then finished, and \<^verbatim>\<open>join\<close> returns as for a thread that ended normally.
\<close>

datatype thread_status = NotStarted | Running | Finished "exn option"

record sgen =
  fs :: "string set"
  tmpdir :: string
  thread :: thread_status
  channel :: string

definition filepath :: "sgen \<Rightarrow> string" where
  "filepath g = tmpdir g @ ''/fifo.json''"

text \<open>
  \<^verbatim>\<open>__init__\<close>, in a file system \<open>f\<close>: the directory, then the channel file in it. (The
  call of \<^verbatim>\<open>find\<close> that follows only lists the directory.)
\<close>

definition sg_init :: "string set \<Rightarrow> string \<Rightarrow> exn + sgen" where
  "sg_init f d =
     (case mkdtemp d f of
        Inl e \<Rightarrow> Inl e
      | Inr f1 \<Rightarrow>
          (case mkfifo (d @ ''/fifo.json'') f1 of
             Inl e \<Rightarrow> Inl e
           | Inr f2 \<Rightarrow> Inr \<lparr>fs = f2, tmpdir = d, thread = NotStarted, channel = []\<rparr>))"

text \<open>\<^verbatim>\<open>__enter__\<close>: \<^verbatim>\<open>self.start()\<close>, which a thread accepts once.\<close>

definition sg_enter :: "sgen \<Rightarrow> exn + sgen" where
  "sg_enter g = (case thread g of NotStarted \<Rightarrow> Inr (g\<lparr>thread := Running\<rparr>) | _ \<Rightarrow> Inl RuntimeError)"

text \<open>
  \<^verbatim>\<open>run\<close>, the body of the thread, taken as one step: the file is opened for writing
  (which creates it when it is missing, and fails without its directory), and the
  producer writes \<open>fst pr\<close> and ends with \<open>snd pr\<close>.
\<close>

definition sg_run :: "string \<times> exn option \<Rightarrow> sgen \<Rightarrow> sgen" where
  "sg_run pr g =
     (if tmpdir g \<notin> fs g then g\<lparr>thread := Finished (Some FileNotFoundError)\<rparr>
      else g\<lparr>fs := insert (filepath g) (fs g), channel := channel g @ fst pr,
             thread := Finished (snd pr)\<rparr>)"

text \<open>
  \<^verbatim>\<open>__exit__\<close>: \<^verbatim>\<open>join\<close>, \<^verbatim>\<open>unlink\<close>, \<^verbatim>\<open>rmdir\<close>. \<open>None\<close> is \<^verbatim>\<open>join\<close> waiting for a thread
  that still runs. Otherwise the result is the generator afterwards, with the exception
  \<^verbatim>\<open>__exit__\<close> raised, if any; \<^verbatim>\<open>__exit__\<close> returns \<^verbatim>\<open>None\<close>, so an exception of the
  \<^verbatim>\<open>with\<close> block goes on after it.
\<close>

definition sg_exit :: "sgen \<Rightarrow> (sgen \<times> exn option) option" where
  "sg_exit g =
     (case thread g of
        NotStarted \<Rightarrow> Some (g, Some RuntimeError)
      | Running \<Rightarrow> None
      | Finished _ \<Rightarrow>
          (case unlink (filepath g) (fs g) of
             Inl e \<Rightarrow> Some (g, Some e)
           | Inr f1 \<Rightarrow>
               (case rmdir (tmpdir g) f1 of
                  Inl e \<Rightarrow> Some (g\<lparr>fs := f1\<rparr>, Some e)
                | Inr f2 \<Rightarrow> Some (g\<lparr>fs := f2\<rparr>, None))))"

text \<open>
  The main flow and the producer thread run side by side. A schedule is a list of
  actions; an action that cannot happen in a configuration gives \<open>None\<close>. The main flow
  is before the \<^verbatim>\<open>with\<close> block, inside it, or after it (with the exception that
  \<^verbatim>\<open>__exit__\<close> raised, if any).
\<close>

datatype pc = Before | Inside | After "exn option"

datatype action = Enter | Produce "string \<times> exn option" | Release

fun sg_step :: "action \<Rightarrow> pc \<times> sgen \<Rightarrow> (pc \<times> sgen) option" where
  "sg_step Enter (p, g) =
     (if p = Before then (case sg_enter g of Inr g' \<Rightarrow> Some (Inside, g') | Inl e \<Rightarrow> None)
      else None)"
| "sg_step (Produce pr) (p, g) =
     (if thread g = Running then Some (p, sg_run pr g) else None)"
| "sg_step Release (p, g) =
     (if p = Inside then (case sg_exit g of Some (g', e) \<Rightarrow> Some (After e, g') | None \<Rightarrow> None)
      else None)"

fun sg_exec :: "action list \<Rightarrow> pc \<times> sgen \<Rightarrow> (pc \<times> sgen) option" where
  "sg_exec [] c = Some c"
| "sg_exec (a # as) c = (case sg_step a c of None \<Rightarrow> None | Some c' \<Rightarrow> sg_exec as c')"

section \<open>\<^verbatim>\<open>run\<close>\<close>

text \<open>
  The context manager the handler returned: \<^verbatim>\<open>contextlib.nullcontext\<close> for a
  collection on disk, a \<^verbatim>\<open>StreamGenerator\<close> for a CSV collection.
\<close>

datatype generator = NullContext | Stream sgen

text \<open>
  \<^verbatim>\<open>run(command)\<close>, given what the producer does (\<open>None\<close>: it never ends), the lines of the
  child and its return code. The result is the exception that leaves \<^verbatim>\<open>run\<close>; \<open>None\<close>
  when \<^verbatim>\<open>run\<close> never returns.
\<close>

definition run :: "generator \<Rightarrow> (string \<times> exn option) option \<Rightarrow> string list \<Rightarrow> int \<Rightarrow> exn option" where
  "run gen producer lines returncode =
     (case gen of
        NullContext \<Rightarrow> Some (run_body lines returncode)
      | Stream g \<Rightarrow>
          (case sg_enter g of
             Inl e \<Rightarrow> Some e
           | Inr g1 \<Rightarrow>
               (case producer of
                  None \<Rightarrow> None
                | Some pr \<Rightarrow>
                    (case sg_exit (sg_run pr g1) of
                       None \<Rightarrow> None
                     | Some (g2, Some e) \<Rightarrow> Some e
                     | Some (g2, None) \<Rightarrow> Some (run_body lines returncode)))))"

text \<open>
  What \<^verbatim>\<open>mkdtemp\<close> promises of the name \<open>d\<close> it returns, in the file system \<open>f\<close>: the
  directory is new, and so nothing exists below it.
\<close>

definition fresh :: "string \<Rightarrow> string set \<Rightarrow> bool" where
  "fresh d f = (d \<notin> f \<and> (\<forall>p \<in> f. \<not> prefix (d @ ''/'') p))"

text \<open>
  What holds of the generator at each point of the main flow, for the temporary directory
  \<open>d\<close> made in the file system \<open>f\<close>.
\<close>

definition sg_inv :: "string \<Rightarrow> string set \<Rightarrow> pc \<times> sgen \<Rightarrow> bool" where
  "sg_inv d f c =
     (case c of
        (p, g) \<Rightarrow>
          tmpdir g = d \<and>
          (case p of
             Before \<Rightarrow> thread g = NotStarted \<and> fs g = insert (d @ ''/fifo.json'') (insert d f)
           | Inside \<Rightarrow> thread g \<noteq> NotStarted \<and> fs g = insert (d @ ''/fifo.json'') (insert d f)
           | After e \<Rightarrow> e = None \<and> (\<exists>r. thread g = Finished r) \<and> fs g = f))"

text \<open>
  A source line that, once stripped, is the identifier, the separator and the contents
  of the record \<open>r\<close>, the separator not occurring before that place.
\<close>

definition record_line :: "pystr \<Rightarrow> pystr \<Rightarrow> pystr \<times> pystr \<Rightarrow> bool" where
  "record_line sep line r =
     (strip line = fst r @ sep @ snd r \<and> \<not> sublist sep (fst r @ butlast sep))"

section \<open>The capability dispatcher\<close>

text \<open>
  Modelled from the spec: the class \<^verbatim>\<open>Handler\<close> of \<^verbatim>\<open>xpmir.utils\<close>, which the commands
  use for their dispatch, is not among the sources. An error of the dispatcher names
  the type descriptor it is about.
\<close>

datatype 'ty dispatch_error = DuplicateHandler 'ty | UnsupportedVariant 'ty

type_synonym ('ty, 'v, 'r) registry = "('ty \<times> ('v \<Rightarrow> 'r)) list"

text \<open>
  Modelled from the spec: \<^verbatim>\<open>register(typeDescriptor, handler)\<close> adds a handler to the
  ordered mapping; a second registration for the same type is an error.
\<close>

definition register ::
  "'ty \<Rightarrow> ('v \<Rightarrow> 'r) \<Rightarrow> ('ty, 'v, 'r) registry \<Rightarrow> 'ty dispatch_error + ('ty, 'v, 'r) registry" where
  "register T h reg =
     (if T \<in> fst ` set reg then Inl (DuplicateHandler T) else Inr (reg @ [(T, h)]))"

text \<open>
  Modelled from the spec: the registrations of the setup, one after the other, from the
  registry \<open>reg\<close>.
\<close>

fun register_all ::
  "('ty \<times> ('v \<Rightarrow> 'r)) list \<Rightarrow> ('ty, 'v, 'r) registry \<Rightarrow> 'ty dispatch_error + ('ty, 'v, 'r) registry" where
  "register_all [] reg = Inr reg"
| "register_all ((T, h) # rest) reg =
     (case register T h reg of Inl e \<Rightarrow> Inl e | Inr reg' \<Rightarrow> register_all rest reg')"

text \<open>
  Modelled from the spec: \<^verbatim>\<open>dispatch(value)\<close> looks up the handler registered for the
  concrete type of the value, \<open>type_of v\<close>, exactly, and returns what the handler
  returns on the value; with no such handler it fails with \<^verbatim>\<open>UnsupportedVariant\<close>.
\<close>

definition dispatch ::
  "('v \<Rightarrow> 'ty) \<Rightarrow> ('ty, 'v, 'r) registry \<Rightarrow> 'v \<Rightarrow> 'ty dispatch_error + 'r" where
  "dispatch type_of reg v =
     (case map_of reg (type_of v) of
        None \<Rightarrow> Inl (UnsupportedVariant (type_of v))
      | Some h \<Rightarrow> Inr (h v))"

section \<open>The exit status\<close>


lemma process_lines_Cons:
  assumes "d \<noteq> []" and "process_lines st (d # ls) = Inr st'"
  obtains st1 where "process_line st d = Inr st1" and "process_lines st1 ls = Inr st'"
  using assms by (auto split: sum.splits)

lemma seen_Cons: "seen (d # ls) = (if d = [] then [] else d # seen ls)"
  by (simp add: seen_def)



subsection \<open>The generator around the supervisor\<close>

lemma sg_init_fresh:
  assumes "fresh d f"
  shows "sg_init f d =
     Inr \<lparr>fs = insert (d @ ''/fifo.json'') (insert d f), tmpdir = d, thread = NotStarted,
          channel = []\<rparr>"
  using assms by (auto simp: sg_init_def mkdtemp_def mkfifo_def fresh_def)

lemma unlink_fifo:
  assumes "fresh d f"
  shows "unlink (d @ ''/fifo.json'') (insert (d @ ''/fifo.json'') (insert d f)) = Inr (insert d f)"
  using assms by (auto simp: unlink_def fresh_def)

lemma rmdir_tmpdir:
  assumes "fresh d f"
  shows "rmdir d (insert d f) = Inr f"
  using assms by (auto simp: rmdir_def fresh_def)

lemma sg_exit_clean:
  assumes "fresh d f" and "fs g = insert (d @ ''/fifo.json'') (insert d f)" and "tmpdir g = d"
    and "thread g = Finished r"
  shows "sg_exit g = Some (g\<lparr>fs := f\<rparr>, None)"
  using assms unlink_fifo [OF assms(1)] rmdir_tmpdir [OF assms(1)]
  by (simp add: sg_exit_def filepath_def)

lemma sg_run_keeps:
  assumes "fs g = insert (d @ ''/fifo.json'') (insert d f)" and "tmpdir g = d"
  shows "sg_run pr g = g\<lparr>channel := channel g @ fst pr, thread := Finished (snd pr)\<rparr>"
  using assms by (simp add: sg_run_def filepath_def insert_absorb)

lemma run_stream_fresh:
  assumes "fresh d f" and "sg_init f d = Inr g"
  shows "run (Stream g) (Some pr) lines rc = Some (run_body lines rc)"
proof -
  let ?g1 = "g\<lparr>thread := Running\<rparr>"
  from assms sg_init_fresh [OF assms(1)]
  have g: "g = \<lparr>fs = insert (d @ ''/fifo.json'') (insert d f), tmpdir = d, thread = NotStarted,
      channel = []\<rparr>"
    by simp
  then have enter: "sg_enter g = Inr ?g1"
    by (simp add: sg_enter_def)
  from g have "sg_run pr ?g1 = ?g1\<lparr>channel := channel ?g1 @ fst pr, thread := Finished (snd pr)\<rparr>"
    by (intro sg_run_keeps [where d = d and f = f]) simp_all
  moreover from g have "sg_exit (?g1\<lparr>channel := channel ?g1 @ fst pr, thread := Finished (snd pr)\<rparr>)
      = Some (?g1\<lparr>channel := channel ?g1 @ fst pr, thread := Finished (snd pr), fs := f\<rparr>, None)"
    using sg_exit_clean [OF assms(1), where g = "?g1\<lparr>channel := channel ?g1 @ fst pr, thread := Finished (snd pr)\<rparr>" and r = "snd pr"]
    by simp
  ultimately show ?thesis
    using enter by (simp add: run_def)
qed

subsection \<open>The loop on three concrete lines\<close>

lemma ev_complete_matches:
  "matches RE_COMPLETE ''IndexCollection.java Indexing Complete documents indexed''"
  by code_simp

lemma ev_complete:
  "process_line init_state ''IndexCollection.java Indexing Complete documents indexed'' =
     Inr \<lparr>nfiles = - 1, indexedfiles = 0, complete = True,
          out = [Stdout ''IndexCollection.java Indexing Complete documents indexed'']\<rparr>"
  by code_simp

lemma ev_complete_not_files:
  "\<not> matches RE_FILES ''IndexCollection.java Indexing Complete documents indexed''
   \<and> \<not> matches RE_FILE ''IndexCollection.java Indexing Complete documents indexed''"
  by code_simp

lemma ev_files_match:
  "re_match RE_FILES ''index.IndexCollection (IndexCollection.java:1) - 1 files found'' = Some ''1''"
  by code_simp

lemma ev_files:
  "process_line init_state ''index.IndexCollection (IndexCollection.java:1) - 1 files found'' =
     Inr \<lparr>nfiles = 1, indexedfiles = 0, complete = False,
          out = [Stdout ''1 files to index\<newline>'']\<rparr>"
  by code_simp

lemma ev_docs_match:
  "matches RE_FILE ''index.IndexCollection$LocalIndexerThread (IndexCollection.java:1) docs added.''
   \<and> \<not> matches RE_FILES ''index.IndexCollection$LocalIndexerThread (IndexCollection.java:1) docs added.''
   \<and> \<not> matches RE_COMPLETE ''index.IndexCollection$LocalIndexerThread (IndexCollection.java:1) docs added.''"
  by code_simp

lemma ev_docs_unknown:
  "process_line init_state
     ''index.IndexCollection$LocalIndexerThread (IndexCollection.java:1) docs added.'' =
     Inr \<lparr>nfiles = - 1, indexedfiles = 1, complete = False, out = [Progress 1 (- 1)]\<rparr>"
  by code_simp

lemma ev_docs_known:
  "process_line \<lparr>nfiles = 1, indexedfiles = k, complete = False, out = evs\<rparr>
     ''index.IndexCollection$LocalIndexerThread (IndexCollection.java:1) docs added.'' =
     Inr \<lparr>nfiles = 1, indexedfiles = k + 1, complete = False, out = evs @ [Progress (k + 1) 1]\<rparr>"
  using ev_docs_match by (simp add: process_line_def matches_def Let_def)



subsection \<open>The counters\<close>

lemma process_line_indexedfiles:
  "process_line st d = Inr st' \<Longrightarrow>
   indexedfiles st' = indexedfiles st + (if per_unit d then 1 else 0)"
  by (auto simp: process_line_def per_unit_def matches_def Let_def
      split: option.splits sum.splits if_splits)

lemma process_lines_indexedfiles:
  "process_lines st ls = Inr st' \<Longrightarrow>
   indexedfiles st' = indexedfiles st + int (length (filter per_unit (seen ls)))"
proof (induction ls arbitrary: st)
  case Nil
  then show ?case by (simp add: seen_def)
next
  case (Cons d ls)
  show ?case
  proof (cases "d = []")
    case True
    with Cons.prems show ?thesis by (simp add: seen_Cons)
  next
    case False
    from False Cons.prems obtain st1 where 1: "process_line st d = Inr st1"
      and 2: "process_lines st1 ls = Inr st'"
      by (rule process_lines_Cons)
    from Cons.IH [OF 2] process_line_indexedfiles [OF 1] False
    show ?thesis by (simp add: seen_Cons)
  qed
qed

lemma seen_append_length:
  "length (filter P (seen xs)) \<le> length (filter P (seen (xs @ ys)))"
  by (induction xs) (auto simp: seen_Cons seen_def)

text \<open>
  C4, as amended. Along the lines the loop reads, the counter \<^verbatim>\<open>indexedfiles\<close> never
  decreases: after any part of the input it is the number of per-unit lines read so
  far. The loop never compares it with \<^verbatim>\<open>nfiles\<close>, so it is not bounded by the total.
\<close>

theorem indexedfiles_counts:
  assumes "process_lines init_state xs = Inr st1"
    and "process_lines init_state (xs @ ys) = Inr st2"
  shows "indexedfiles st1 = int (length (filter per_unit (seen xs)))
     \<and> indexedfiles st1 \<le> indexedfiles st2"
  using process_lines_indexedfiles [OF assms(1)] process_lines_indexedfiles [OF assms(2)]
    seen_append_length [of per_unit xs ys]
  by (simp add: init_state_def)

theorem indexedfiles_counts_witness:
  "process_lines init_state
     [''index.IndexCollection (IndexCollection.java:1) - 1 files found'',
      ''index.IndexCollection$LocalIndexerThread (IndexCollection.java:1) docs added.''] =
     Inr \<lparr>nfiles = 1, indexedfiles = 1, complete = False,
          out = [Stdout ''1 files to index\<newline>'', Progress 1 1]\<rparr>
   \<and> process_lines init_state
     ([''index.IndexCollection (IndexCollection.java:1) - 1 files found'',
       ''index.IndexCollection$LocalIndexerThread (IndexCollection.java:1) docs added.'']
      @ [''index.IndexCollection$LocalIndexerThread (IndexCollection.java:1) docs added.'']) =
     Inr \<lparr>nfiles = 1, indexedfiles = 2, complete = False,
          out = [Stdout ''1 files to index\<newline>'', Progress 1 1, Progress 2 1]\<rparr>
   \<and> (1::int) =
       int (length (filter per_unit (seen
         [''index.IndexCollection (IndexCollection.java:1) - 1 files found'',
          ''index.IndexCollection$LocalIndexerThread (IndexCollection.java:1) docs added.''])))"
proof -
  let ?F = "''index.IndexCollection (IndexCollection.java:1) - 1 files found''"
  let ?D = "''index.IndexCollection$LocalIndexerThread (IndexCollection.java:1) docs added.''"
  let ?S1 = "\<lparr>nfiles = 1, indexedfiles = 1, complete = False,
          out = [Stdout ''1 files to index\<newline>'', Progress 1 1]\<rparr>"
  let ?S2 = "\<lparr>nfiles = 1, indexedfiles = 2, complete = False,
          out = [Stdout ''1 files to index\<newline>'', Progress 1 1, Progress 2 1]\<rparr>"
  have h1: "process_lines init_state [?F, ?D] = Inr ?S1"
    using ev_docs_known [of 0 "[Stdout ''1 files to index\<newline>'']"]
    by (simp add: ev_files)
  have h2: "process_lines init_state ([?F, ?D] @ [?D]) = Inr ?S2"
    using ev_docs_known [of 0 "[Stdout ''1 files to index\<newline>'']"]
      ev_docs_known [of 1 "[Stdout ''1 files to index\<newline>'', Progress 1 1]"]
    by (simp add: ev_files)
  from indexedfiles_counts [OF h1 h2] h1 h2 show ?thesis
    by simp
qed

text \<open>
  The claim as stated fails: with a total of 1 and two per-unit lines, the counter is 2.
\<close>

theorem completed_exceeds_total:
  "process_lines init_state
     [''index.IndexCollection (IndexCollection.java:1) - 1 files found'',
      ''index.IndexCollection$LocalIndexerThread (IndexCollection.java:1) docs added.'',
      ''index.IndexCollection$LocalIndexerThread (IndexCollection.java:1) docs added.''] =
     Inr \<lparr>nfiles = 1, indexedfiles = 2, complete = False,
          out = [Stdout ''1 files to index\<newline>'', Progress 1 1, Progress 2 1]\<rparr>
   \<and> nfiles \<lparr>nfiles = 1, indexedfiles = 2, complete = False,
          out = [Stdout ''1 files to index\<newline>'', Progress 1 1, Progress 2 1]\<rparr>
     < indexedfiles \<lparr>nfiles = 1, indexedfiles = 2, complete = False,
          out = [Stdout ''1 files to index\<newline>'', Progress 1 1, Progress 2 1]\<rparr>"
  using ev_docs_known [of 0 "[Stdout ''1 files to index\<newline>'']"]
    ev_docs_known [of 1 "[Stdout ''1 files to index\<newline>'', Progress 1 1]"]
  by (simp add: ev_files)

subsection \<open>A per-unit line before the total is known\<close>

lemma process_line_nfiles:
  "process_line st d = Inr st' \<Longrightarrow> \<not> matches RE_FILES d \<Longrightarrow> nfiles st' = nfiles st"
  by (auto simp: process_line_def matches_def Let_def split: option.splits sum.splits if_splits)

lemma process_lines_nfiles:
  "process_lines st ls = Inr st' \<Longrightarrow> \<forall>l \<in> set (seen ls). \<not> matches RE_FILES l \<Longrightarrow>
   nfiles st' = nfiles st"
proof (induction ls arbitrary: st)
  case Nil
  then show ?case by simp
next
  case (Cons d ls)
  show ?case
  proof (cases "d = []")
    case True
    with Cons.prems show ?thesis by simp
  next
    case False
    from False Cons.prems(1) obtain st1 where 1: "process_line st d = Inr st1"
      and 2: "process_lines st1 ls = Inr st'"
      by (rule process_lines_Cons)
    from Cons.prems(2) False have 3: "\<not> matches RE_FILES d"
      and 4: "\<forall>l \<in> set (seen ls). \<not> matches RE_FILES l"
      by (simp_all add: seen_Cons)
    from Cons.IH [OF 2 4] process_line_nfiles [OF 1 3] show ?thesis by simp
  qed
qed

text \<open>
  C5, as amended. On a per-unit line read before any total-count line, the loop raises
  nothing and adds one to \<^verbatim>\<open>indexedfiles\<close>; it does call \<^verbatim>\<open>progress\<close>, with the quotient of
  the new counter by \<open>- 1\<close>, the value \<^verbatim>\<open>nfiles\<close> starts with.
\<close>

theorem per_unit_before_total:
  assumes "process_lines init_state xs = Inr st"
    and "\<forall>l \<in> set (seen xs). \<not> matches RE_FILES l"
    and "matches RE_FILE d" and "\<not> matches RE_FILES d"
  shows "process_line st d =
     Inr (st\<lparr>complete := complete st \<or> matches RE_COMPLETE d,
             indexedfiles := indexedfiles st + 1,
             out := out st @ [Progress (indexedfiles st + 1) (- 1)]\<rparr>)"
  using process_lines_nfiles [OF assms(1,2)] assms(3,4)
  by (simp add: process_line_def matches_def init_state_def Let_def)

theorem per_unit_before_total_witness:
  "process_lines init_state [''IndexCollection.java Indexing Complete documents indexed''] =
     Inr \<lparr>nfiles = - 1, indexedfiles = 0, complete = True,
          out = [Stdout ''IndexCollection.java Indexing Complete documents indexed'']\<rparr>
   \<and> seen [''IndexCollection.java Indexing Complete documents indexed''] =
       [''IndexCollection.java Indexing Complete documents indexed'']
   \<and> \<not> matches RE_FILES ''IndexCollection.java Indexing Complete documents indexed''
   \<and> matches RE_FILE ''index.IndexCollection$LocalIndexerThread (IndexCollection.java:1) docs added.''
   \<and> \<not> matches RE_FILES ''index.IndexCollection$LocalIndexerThread (IndexCollection.java:1) docs added.''
   \<and> process_line \<lparr>nfiles = - 1, indexedfiles = 0, complete = True,
          out = [Stdout ''IndexCollection.java Indexing Complete documents indexed'']\<rparr>
        ''index.IndexCollection$LocalIndexerThread (IndexCollection.java:1) docs added.'' =
       Inr \<lparr>nfiles = - 1, indexedfiles = 1, complete = True,
            out = [Stdout ''IndexCollection.java Indexing Complete documents indexed'',
                   Progress 1 (- 1)]\<rparr>"
proof -
  let ?C = "''IndexCollection.java Indexing Complete documents indexed''"
  let ?D = "''index.IndexCollection$LocalIndexerThread (IndexCollection.java:1) docs added.''"
  let ?S = "\<lparr>nfiles = - 1, indexedfiles = 0, complete = True, out = [Stdout ?C]\<rparr>"
  have h1: "process_lines init_state [?C] = Inr ?S"
    by (simp add: ev_complete)
  have h2: "\<forall>l \<in> set (seen [?C]). \<not> matches RE_FILES l"
    using ev_complete_not_files by (simp add: seen_def)
  have h3: "matches RE_FILE ?D" and h4: "\<not> matches RE_FILES ?D"
    using ev_docs_match by simp_all
  from per_unit_before_total [OF h1 h2 h3 h4] h1 h3 h4 ev_complete_not_files show ?thesis
    by (simp add: seen_def)
qed

text \<open>
  The claim as stated fails: the first line being a per-unit line, the loop calls
  \<^verbatim>\<open>progress(1 / -1)\<close>.
\<close>

theorem per_unit_reports_progress:
  "process_lines init_state
     [''index.IndexCollection$LocalIndexerThread (IndexCollection.java:1) docs added.''] =
     Inr \<lparr>nfiles = - 1, indexedfiles = 1, complete = False, out = [Progress 1 (- 1)]\<rparr>
   \<and> Progress 1 (- 1) \<in> set (out \<lparr>nfiles = - 1, indexedfiles = 1, complete = False,
                                       out = [Progress 1 (- 1)]\<rparr>)"
  by (simp add: ev_docs_unknown)

subsection \<open>A total-count line\<close>

text \<open>
  C6, as amended. On a total-count line whose group, the commas removed, reads as the
  integer \<open>n\<close>, the loop sets \<^verbatim>\<open>nfiles\<close> to \<open>n\<close> and prints \<^verbatim>\<open>n files to index\<close> on the
  standard output; it makes no call to \<^verbatim>\<open>progress\<close> for that line.
\<close>

theorem total_count_line:
  assumes "re_match RE_FILES d = Some g"
    and "py_int (filter (\<lambda>c. c \<noteq> CHR '','') g) = Inr n"
  shows "process_line st d =
     Inr (st\<lparr>complete := complete st \<or> matches RE_COMPLETE d, nfiles := n,
             out := out st @ [Stdout (fmt_d n @ '' files to index\<newline>'')]\<rparr>)"
  using assms by (simp add: process_line_def)

theorem total_count_line_witness:
  "re_match RE_FILES ''index.IndexCollection (IndexCollection.java:1) - 1 files found'' = Some ''1''
   \<and> py_int (filter (\<lambda>c. c \<noteq> CHR '','') ''1'') = Inr 1
   \<and> process_line init_state ''index.IndexCollection (IndexCollection.java:1) - 1 files found'' =
       Inr \<lparr>nfiles = 1, indexedfiles = 0, complete = False,
            out = [Stdout ''1 files to index\<newline>'']\<rparr>"
proof -
  let ?F = "''index.IndexCollection (IndexCollection.java:1) - 1 files found''"
  have h1: "re_match RE_FILES ?F = Some ''1''"
    by (rule ev_files_match)
  have h2: "py_int (filter (\<lambda>c. c \<noteq> CHR '','') ''1'') = Inr 1"
    by (simp add: py_int_def digit_val_def)
  from total_count_line [OF h1 h2, of init_state] h1 h2 show ?thesis
    by (simp add: ev_files)
qed

text \<open>
  The claim as stated fails: after a line reporting 1 file, nothing has been sent to
  \<^verbatim>\<open>progress\<close>; the one output is the printed text.
\<close>

theorem total_count_reports_no_progress:
  "process_line init_state ''index.IndexCollection (IndexCollection.java:1) - 1 files found'' =
     Inr \<lparr>nfiles = 1, indexedfiles = 0, complete = False,
          out = [Stdout ''1 files to index\<newline>'']\<rparr>
   \<and> Progress 0 1 \<notin> set (out \<lparr>nfiles = 1, indexedfiles = 0, complete = False,
                                   out = [Stdout ''1 files to index\<newline>'']\<rparr>)"
  by (simp add: ev_files)

subsection \<open>The three patterns on one line\<close>

lemma first_some_SomeD: "first_some f xs = Some y \<Longrightarrow> \<exists>x \<in> set xs. f x = Some y"
  by (induction xs) (auto split: option.splits)

lemma re_match_literal:
  "re_match r s = Some g \<Longrightarrow> (Lit c, Once, b) \<in> set r \<Longrightarrow> c \<in> set s"
proof (induction r s arbitrary: g rule: re_match.induct)
  case (1 s)
  then show ?case by simp
next
  case (2 c' g' r s)
  from "2.prems"(1) obtain x xs h where s: "s = x # xs" and a: "accepts c' x"
    and m: "re_match r xs = Some h"
    by (auto split: list.splits if_splits)
  show ?case
  proof (cases "(Lit c, Once, b) = (c', Once, g')")
    case True
    with a s show ?thesis by auto
  next
    case False
    with "2.prems"(2) have "(Lit c, Once, b) \<in> set r" by auto
    from "2.IH" [OF s a m this] s show ?thesis by simp
  qed
next
  case (3 c' g' r s)
  from "3.prems"(1) have "first_some
      (\<lambda>k. map_option (capture g' (take k s)) (re_match r (drop k s)))
      (rev [0 ..< Suc (length (takeWhile (accepts c') s))]) = Some g"
    by (simp only: re_match.simps)
  from first_some_SomeD [OF this] obtain k
    where k: "k \<in> set (rev [0 ..< Suc (length (takeWhile (accepts c') s))])"
      and "map_option (capture g' (take k s)) (re_match r (drop k s)) = Some g"
    by blast
  then obtain h where m: "re_match r (drop k s) = Some h"
    by auto
  from "3.prems"(2) have "(Lit c, Once, b) \<in> set r" by simp
  with "3.IH" m k have "c \<in> set (drop k s)"
    by blast
  then show ?case
    by (rule in_set_dropD)
next
  case (4 c' g' r s)
  from "4.prems"(1) have "first_some
      (\<lambda>k. map_option (capture g' (take k s)) (re_match r (drop k s)))
      (rev [1 ..< Suc (length (takeWhile (accepts c') s))]) = Some g"
    by (simp only: re_match.simps)
  from first_some_SomeD [OF this] obtain k
    where k: "k \<in> set (rev [1 ..< Suc (length (takeWhile (accepts c') s))])"
      and "map_option (capture g' (take k s)) (re_match r (drop k s)) = Some g"
    by blast
  then obtain h where m: "re_match r (drop k s) = Some h"
    by auto
  from "4.prems"(2) have "(Lit c, Once, b) \<in> set r" by simp
  with "4.IH" m k have "c \<in> set (drop k s)"
    by blast
  then show ?case
    by (rule in_set_dropD)
qed

lemma matches_files_paren: "matches RE_FILES d \<Longrightarrow> CHR ''('' \<in> set d"
proof -
  assume "matches RE_FILES d"
  then obtain g where "re_match RE_FILES d = Some g"
    by (auto simp: matches_def)
  moreover have "(Lit CHR ''('', Once, False) \<in> set RE_FILES"
    by (simp add: RE_FILES_def lits_def)
  ultimately show ?thesis
    by (rule re_match_literal)
qed

lemma dec_digits: "x \<in> set (dec n) \<Longrightarrow> 48 \<le> (of_char x :: nat) \<and> (of_char x :: nat) \<le> 57"
proof (induction n rule: dec.induct)
  case (1 n)
  show ?case
  proof (cases "n < 10")
    case True
    with "1.prems" show ?thesis
      by (simp add: dec.simps [of n])
  next
    case False
    with "1.prems" have "x \<in> set (dec (n div 10)) \<or> x = char_of (48 + n mod 10)"
      by (auto simp: dec.simps [of n])
    then show ?thesis
    proof
      assume "x \<in> set (dec (n div 10))"
      with "1.IH" False show ?thesis by simp
    next
      assume "x = char_of (48 + n mod 10)"
      moreover have "n mod 10 < 10" by simp
      ultimately show ?thesis by simp
    qed
  qed
qed

lemma printed_total_no_paren: "CHR ''('' \<notin> set (fmt_d n @ '' files to index\<newline>'')"
proof -
  have "CHR ''('' \<notin> set (dec m)" for m
    using dec_digits [of "CHR ''(''" m] by auto
  then show ?thesis
    by (simp add: fmt_d_def)
qed

lemma printed_total_differs:
  "matches RE_FILES d \<Longrightarrow> fmt_d n @ '' files to index\<newline>'' \<noteq> d"
  using matches_files_paren [of d] printed_total_no_paren [of n] by metis


text \<open>
  C7, as amended. On every line that the loop handles without an exception, the
  completion pattern is tried whatever the other two give, and sets the flag; the
  total-count pattern is tried before the per-unit pattern, the first match winning
  (the total is printed, or the counter goes up with a call to \<^verbatim>\<open>progress\<close>); and the
  lines written as they are to the standard output are exactly those that match neither
  of these two, a line that matches the completion pattern only being one of them.
\<close>

theorem line_classification:
  assumes "process_line st d = Inr st'"
  shows "complete st' = (complete st \<or> matches RE_COMPLETE d)
     \<and> (matches RE_FILES d \<longrightarrow>
          indexedfiles st' = indexedfiles st
          \<and> out st' = out st @ [Stdout (fmt_d (nfiles st') @ '' files to index\<newline>'')])
     \<and> (\<not> matches RE_FILES d \<and> matches RE_FILE d \<longrightarrow>
          nfiles st' = nfiles st \<and> indexedfiles st' = indexedfiles st + 1
          \<and> out st' = out st @ [Progress (indexedfiles st') (nfiles st')])
     \<and> (\<not> matches RE_FILES d \<and> \<not> matches RE_FILE d \<longrightarrow>
          nfiles st' = nfiles st \<and> indexedfiles st' = indexedfiles st
          \<and> out st' = out st @ [Stdout d])
     \<and> (out st' = out st @ [Stdout d] \<longleftrightarrow> \<not> matches RE_FILES d \<and> \<not> matches RE_FILE d)"
proof -
  have 1: "complete st' = (complete st \<or> matches RE_COMPLETE d)
     \<and> (matches RE_FILES d \<longrightarrow>
          indexedfiles st' = indexedfiles st
          \<and> out st' = out st @ [Stdout (fmt_d (nfiles st') @ '' files to index\<newline>'')])
     \<and> (\<not> matches RE_FILES d \<and> matches RE_FILE d \<longrightarrow>
          nfiles st' = nfiles st \<and> indexedfiles st' = indexedfiles st + 1
          \<and> out st' = out st @ [Progress (indexedfiles st') (nfiles st')])
     \<and> (\<not> matches RE_FILES d \<and> \<not> matches RE_FILE d \<longrightarrow>
          nfiles st' = nfiles st \<and> indexedfiles st' = indexedfiles st
          \<and> out st' = out st @ [Stdout d])"
    using assms
    by (auto simp: process_line_def matches_def decode_utf8_def Let_def
        split: option.splits sum.splits if_splits)
  have "(out st' = out st @ [Stdout d]) = (\<not> matches RE_FILES d \<and> \<not> matches RE_FILE d)"
  proof (cases "matches RE_FILES d")
    case True
    with 1 printed_total_differs [OF True, of "nfiles st'"] show ?thesis by simp
  next
    case False
    with 1 show ?thesis by (cases "matches RE_FILE d") simp_all
  qed
  with 1 show ?thesis by simp
qed

theorem line_classification_witness:
  "process_line init_state ''IndexCollection.java Indexing Complete documents indexed'' =
     Inr \<lparr>nfiles = - 1, indexedfiles = 0, complete = True,
          out = [Stdout ''IndexCollection.java Indexing Complete documents indexed'']\<rparr>
   \<and> \<not> matches RE_FILES ''IndexCollection.java Indexing Complete documents indexed''
   \<and> \<not> matches RE_FILE ''IndexCollection.java Indexing Complete documents indexed''
   \<and> out \<lparr>nfiles = - 1, indexedfiles = 0, complete = True,
          out = [Stdout ''IndexCollection.java Indexing Complete documents indexed'']\<rparr> =
       out init_state @ [Stdout ''IndexCollection.java Indexing Complete documents indexed'']
   \<and> process_line init_state ''index.IndexCollection (IndexCollection.java:1) - 1 files found'' =
       Inr \<lparr>nfiles = 1, indexedfiles = 0, complete = False,
            out = [Stdout ''1 files to index\<newline>'']\<rparr>
   \<and> matches RE_FILES ''index.IndexCollection (IndexCollection.java:1) - 1 files found''
   \<and> process_line init_state
        ''index.IndexCollection$LocalIndexerThread (IndexCollection.java:1) docs added.'' =
       Inr \<lparr>nfiles = - 1, indexedfiles = 1, complete = False, out = [Progress 1 (- 1)]\<rparr>
   \<and> \<not> matches RE_FILES ''index.IndexCollection$LocalIndexerThread (IndexCollection.java:1) docs added.''
   \<and> matches RE_FILE ''index.IndexCollection$LocalIndexerThread (IndexCollection.java:1) docs added.''"
proof -
  let ?C = "''IndexCollection.java Indexing Complete documents indexed''"
  have "\<not> matches RE_FILES ?C" and "\<not> matches RE_FILE ?C"
    using ev_complete_not_files by simp_all
  moreover have "matches RE_FILES ''index.IndexCollection (IndexCollection.java:1) - 1 files found''"
    by (simp add: matches_def ev_files_match)
  moreover note line_classification [OF ev_complete] line_classification [OF ev_files]
    line_classification [OF ev_docs_unknown]
  ultimately show ?thesis
    using ev_complete ev_files ev_docs_unknown ev_docs_match by (simp add: init_state_def)
qed

text \<open>
  The claim as stated fails: a line that matches the completion pattern is written to
  the standard output all the same.
\<close>

theorem completion_line_echoed:
  "matches RE_COMPLETE ''IndexCollection.java Indexing Complete documents indexed''
   \<and> process_line init_state ''IndexCollection.java Indexing Complete documents indexed'' =
       Inr \<lparr>nfiles = - 1, indexedfiles = 0, complete = True,
            out = [Stdout ''IndexCollection.java Indexing Complete documents indexed'']\<rparr>"
  using ev_complete_matches ev_complete by simp

section \<open>The producer\<close>

lemma split_once_None_iff:
  "sep \<noteq> [] \<Longrightarrow> split_once sep s = None \<longleftrightarrow> \<not> sublist sep s"
  by (induction s) (auto simp: sublist_Cons_right)


lemma butlast_last_append: "sep \<noteq> [] \<Longrightarrow> butlast sep @ last sep # b = sep @ b"
  by (induction sep) auto

lemma prefix_shorter:
  assumes "prefix xs (ys @ zs)" and "length xs \<le> length ys"
  shows "prefix xs ys"
  using assms by (auto simp: prefix_append)


lemma split_once_leftmost:
  "sep \<noteq> [] \<Longrightarrow> \<not> sublist sep (a @ butlast sep) \<Longrightarrow> split_once sep (a @ sep @ b) = Some (a, b)"
proof (induction a)
  case Nil
  then show ?case by (cases sep) simp_all
next
  case (Cons x a)
  from Cons.prems(2) have np: "\<not> prefix sep (x # a @ butlast sep)"
    and ns: "\<not> sublist sep (a @ butlast sep)"
    by (simp_all add: sublist_Cons_right)
  have "\<not> prefix sep (x # a @ sep @ b)"
  proof
    assume "prefix sep (x # a @ sep @ b)"
    with Cons.prems(1) have "prefix sep ((x # a @ butlast sep) @ ([last sep] @ b))"
      by (simp add: butlast_last_append)
    moreover from Cons.prems(1) have "length sep \<le> length (x # a @ butlast sep)"
      by simp
    ultimately have "prefix sep (x # a @ butlast sep)"
      by (rule prefix_shorter)
    with np show False ..
  qed
  with Cons.IH [OF Cons.prems(1) ns] show ?case
    by simp
qed

lemma py_split1_record:
  assumes "sep \<noteq> []" and "s = docid @ sep @ text" and "\<not> sublist sep (docid @ butlast sep)"
  shows "py_split1 sep s = Inr [docid, text]"
  using assms split_once_leftmost [OF assms(1,3), of "text"]
  by (simp add: py_split1_def)

lemma py_split1_no_separator:
  assumes "sep \<noteq> []" and "\<not> sublist sep s"
  shows "py_split1 sep s = Inr [s]"
  using assms split_once_None_iff [OF assms(1), of s]
  by (simp add: py_split1_def)

lemma gen_line_record:
  assumes "sep \<noteq> []" and "sz \<noteq> 0" and "strip line = docid @ sep @ text"
    and "\<not> sublist sep (docid @ butlast sep)"
  shows "gen_line sep sz st line =
     (st\<lparr>counter := counter st + int (length line),
         reports := reports st @ [(counter st + int (length line), sz)],
         written := written st @ json_dump_doc docid text @ ''\<newline>''\<rparr>, None)"
  using assms(2) py_split1_record [OF assms(1,3,4)]
  by (simp add: gen_line_def Let_def)

lemma gen_line_no_separator:
  assumes "sep \<noteq> []" and "\<not> sublist sep (strip line)"
  shows "snd (gen_line sep sz st line) \<noteq> None
     \<and> written (fst (gen_line sep sz st line)) = written st
     \<and> (sz \<noteq> 0 \<longrightarrow> snd (gen_line sep sz st line) = Some ValueError)"
  using py_split1_no_separator [OF assms]
  by (simp add: gen_line_def Let_def)

lemma gen_lines_records:
  assumes "sep \<noteq> []" and "sz \<noteq> 0"
  shows "list_all2 (record_line sep) ls recs \<Longrightarrow>
     \<exists>st'. gen_lines sep sz st ls = (st', None)
       \<and> written st' =
           written st @ concat (map (\<lambda>r. json_dump_doc (fst r) (snd r) @ ''\<newline>'') recs)"
proof (induction ls recs arbitrary: st rule: list_all2_induct)
  case Nil
  then show ?case by simp
next
  case (Cons l ls r recs)
  from Cons.hyps(1) have "strip l = fst r @ sep @ snd r" and "\<not> sublist sep (fst r @ butlast sep)"
    by (simp_all add: record_line_def)
  from gen_line_record [OF assms this, of st] obtain st1 where
    1: "gen_line sep sz st l = (st1, None)"
    and 2: "written st1 = written st @ json_dump_doc (fst r) (snd r) @ ''\<newline>''"
    by simp
  from Cons.IH [of st1] obtain st' where "gen_lines sep sz st1 ls = (st', None)"
    and "written st' =
       written st1 @ concat (map (\<lambda>r. json_dump_doc (fst r) (snd r) @ ''\<newline>'') recs)"
    by blast
  with 1 2 show ?case
    by simp
qed

lemma encode_keys:
  "encode_str (code_points ''id'') = [dquote] @ ''id'' @ [dquote]"
  "encode_str (code_points ''contents'') = [dquote] @ ''contents'' @ [dquote]"
  by code_simp+

lemma json_dump_doc_shape:
  "json_dump_doc docid text =
     ''{'' @ [dquote] @ ''id'' @ [dquote] @ '': '' @ encode_str docid @ '', ''
     @ [dquote] @ ''contents'' @ [dquote] @ '': '' @ encode_str text @ ''}''"
  by (simp add: json_dump_doc_def encode_keys)

lemma hexdigit_not_newline: "d < 16 \<Longrightarrow> hexdigit d \<noteq> CHR ''\<newline>''"
proof
  assume d: "d < 16" and "hexdigit d = CHR ''\<newline>''"
  then have "of_char (hexdigit d) = (of_char CHR ''\<newline>'' :: nat)"
    by simp
  with d show False
    by (simp add: hexdigit_def split: if_splits)
qed

lemma json_escape_no_newline: "CHR ''\<newline>'' \<notin> set (json_escape c)"
proof -
  have h: "CHR ''\<newline>'' \<notin> set (hex4 n)" for n
    using hexdigit_not_newline [of "n div 4096 mod 16"] hexdigit_not_newline [of "n div 256 mod 16"]
      hexdigit_not_newline [of "n div 16 mod 16"] hexdigit_not_newline [of "n mod 16"]
    by (auto simp: hex4_def)
  have p: "char_of c \<noteq> CHR ''\<newline>''" if "0x20 \<le> c" "c \<le> 0x7E"
  proof
    assume "char_of c = CHR ''\<newline>''"
    then have "of_char (char_of c) = (of_char CHR ''\<newline>'' :: nat)"
      by simp
    with that show False by simp
  qed
  show ?thesis
    using h p by (auto simp: json_escape_def backslash_def dquote_def Let_def)
qed

lemma json_dump_doc_no_newline: "CHR ''\<newline>'' \<notin> set (json_dump_doc docid text)"
  using json_escape_no_newline
  by (auto simp: json_dump_doc_shape encode_str_def dquote_def)

lemma csv_generator_second_fails:
  assumes "sep \<noteq> []" and "sz \<noteq> 0" and "strip l1 = i1 @ sep @ c1"
    and "\<not> sublist sep (i1 @ butlast sep)" and "\<not> sublist sep (strip l2)"
  shows "csv_generator sep sz (l1 # l2 # rest) = (json_dump_doc i1 c1 @ ''\<newline>'', Some ValueError)"
proof -
  let ?st1 = "gen_init\<lparr>counter := counter gen_init + int (length l1),
         reports := reports gen_init @ [(counter gen_init + int (length l1), sz)],
         written := written gen_init @ json_dump_doc i1 c1 @ ''\<newline>''\<rparr>"
  have 1: "gen_line sep sz gen_init l1 = (?st1, None)"
    by (rule gen_line_record [OF assms(1-4)])
  obtain g e where 2: "gen_line sep sz ?st1 l2 = (g, e)"
    by (cases "gen_line sep sz ?st1 l2")
  from gen_line_no_separator [OF assms(1,5), of sz ?st1] assms(2) 2
  have e: "e = Some ValueError" and g: "written g = written ?st1"
    by simp_all
  have "gen_lines sep sz gen_init (l1 # l2 # rest) = gen_lines sep sz ?st1 (l2 # rest)"
    by (simp only: gen_lines.simps 1 prod.case option.case)
  also have "\<dots> = (g, Some ValueError)"
    by (simp only: gen_lines.simps 2 e prod.case option.case)
  finally have "csv_generator sep sz (l1 # l2 # rest) = (written g, Some ValueError)"
    by (simp only: csv_generator_def prod.case)
  with g show ?thesis
    by (simp add: gen_init_def)
qed

subsection \<open>The producer on concrete lines\<close>

lemma ev_strip:
  "strip (code_points ''d1'' @ [9] @ code_points ''a'' @ [9] @ code_points ''b'' @ [10]) =
     code_points ''d1'' @ [9] @ (code_points ''a'' @ [9] @ code_points ''b'')"
  "strip (code_points ''d2'' @ [10]) = code_points ''d2''"
  "strip (code_points ''d1'' @ [9] @ code_points ''a'' @ [10]) = code_points ''d1'' @ [9] @ code_points ''a''"
  "strip (code_points ''d2'' @ [9] @ code_points ''b'' @ [10]) = code_points ''d2'' @ [9] @ code_points ''b''"
  "strip (code_points ''d3'' @ [9] @ code_points ''c'' @ [10]) = code_points ''d3'' @ [9] @ code_points ''c''"
  "strip (code_points ''d2'' @ [9] @ code_points [] @ [10]) = code_points ''d2''"
  by (simp_all add: code_points_def strip_def lstrip_def rstrip_def isspace_def)

lemma ev_no_tab:
  "\<not> sublist [9] (code_points ''d1'' @ butlast [9])"
  "\<not> sublist [9] (code_points ''d2'' @ butlast [9])"
  "\<not> sublist [9] (code_points ''d3'' @ butlast [9])"
  "\<not> sublist [9] (code_points ''d2'')"
  by (simp_all add: code_points_def sublist_Cons_right)

lemma ev_json:
  \<open>json_dump_doc (code_points ''d1'') (code_points ''a'') = ''{"id": "d1", "contents": "a"}''\<close>
  \<open>json_dump_doc (code_points ''d2'') (code_points ''b'') = ''{"id": "d2", "contents": "b"}''\<close>
  \<open>json_dump_doc (code_points ''d3'') (code_points ''c'') = ''{"id": "d3", "contents": "c"}''\<close>
  by code_simp+

subsection \<open>The separator\<close>



subsection \<open>Three records\<close>

text \<open>
  C8, as amended. For a source of three lines, each of which, once stripped of leading
  and trailing whitespace, is an identifier, the (non-empty) separator and the contents,
  the separator not occurring before that place, and for a non-zero source size, the
  producer writes exactly the three JSON objects
  \<^verbatim>\<open>{"id": <string>, "contents": <string>}\<close> of these identifiers and contents, in
  source order, each followed by a newline, and raises nothing; no newline occurs
  inside an object.
\<close>

theorem three_records:
  assumes "sep \<noteq> []" and "sz \<noteq> 0"
    and "strip l1 = i1 @ sep @ c1" and "\<not> sublist sep (i1 @ butlast sep)"
    and "strip l2 = i2 @ sep @ c2" and "\<not> sublist sep (i2 @ butlast sep)"
    and "strip l3 = i3 @ sep @ c3" and "\<not> sublist sep (i3 @ butlast sep)"
  shows "csv_generator sep sz [l1, l2, l3] =
       (json_dump_doc i1 c1 @ ''\<newline>'' @ json_dump_doc i2 c2 @ ''\<newline>''
        @ json_dump_doc i3 c3 @ ''\<newline>'', None)
     \<and> (\<forall>i c. json_dump_doc i c =
            ''{'' @ [dquote] @ ''id'' @ [dquote] @ '': '' @ encode_str i @ '', ''
            @ [dquote] @ ''contents'' @ [dquote] @ '': '' @ encode_str c @ ''}''
          \<and> CHR ''\<newline>'' \<notin> set (json_dump_doc i c))"
proof -
  have "list_all2 (record_line sep) [l1, l2, l3] [(i1, c1), (i2, c2), (i3, c3)]"
    using assms(3-) by (simp add: record_line_def)
  from gen_lines_records [OF assms(1,2) this, of gen_init]
  have "csv_generator sep sz [l1, l2, l3] =
       (json_dump_doc i1 c1 @ ''\<newline>'' @ json_dump_doc i2 c2 @ ''\<newline>''
        @ json_dump_doc i3 c3 @ ''\<newline>'', None)"
    by (auto simp: csv_generator_def gen_init_def)
  then show ?thesis
    using json_dump_doc_shape json_dump_doc_no_newline by blast
qed

theorem three_records_witness:
  \<open>csv_generator [9] 15
     [code_points ''d1'' @ [9] @ code_points ''a'' @ [10],
      code_points ''d2'' @ [9] @ code_points ''b'' @ [10],
      code_points ''d3'' @ [9] @ code_points ''c'' @ [10]] =
     (''{"id": "d1", "contents": "a"}\<newline>'' @ ''{"id": "d2", "contents": "b"}\<newline>''
      @ ''{"id": "d3", "contents": "c"}\<newline>'', None)\<close>
proof -
  have "[9] \<noteq> ([]::nat list)" and "(15::int) \<noteq> 0"
    by simp_all
  from three_records [OF this ev_strip(3) ev_no_tab(1) ev_strip(4) ev_no_tab(2) ev_strip(5) ev_no_tab(3)]
  show ?thesis
    by (simp add: ev_json)
qed

text \<open>
  The claim as stated fails: with the tab as separator, the second of three records
  having empty contents, stripping the line removes the separator with the newline; the
  producer raises \<^verbatim>\<open>ValueError\<close> after one object.
\<close>

theorem empty_contents_record:
  \<open>csv_generator [9] 14
     [code_points ''d1'' @ [9] @ code_points ''a'' @ [10],
      code_points ''d2'' @ [9] @ code_points [] @ [10],
      code_points ''d3'' @ [9] @ code_points ''c'' @ [10]] =
     (''{"id": "d1", "contents": "a"}\<newline>'', Some ValueError)\<close>
proof -
  have "[9] \<noteq> ([]::nat list)" and "(14::int) \<noteq> 0"
    by simp_all
  from csv_generator_second_fails [OF this ev_strip(3) ev_no_tab(1),
      of "code_points ''d2'' @ [9] @ code_points [] @ [10]"
        "[code_points ''d3'' @ [9] @ code_points ''c'' @ [10]]"]
    ev_strip(6) ev_no_tab(4)
  show ?thesis
    by (simp add: ev_json)
qed

section \<open>The stream generator\<close>

lemma sg_inv_init:
  assumes "fresh d f" and "sg_init f d = Inr g0"
  shows "sg_inv d f (Before, g0)"
  using assms sg_init_fresh [OF assms(1)] by (auto simp: sg_inv_def)

lemma sg_step_inv:
  assumes "fresh d f" and "sg_inv d f c" and "sg_step a c = Some c'"
  shows "sg_inv d f c'"
proof (cases c)
  case (Pair p g)
  show ?thesis
  proof (cases a)
    case Enter
    with Pair assms(3) have p: "p = Before" and c': "sg_enter g = Inr (snd c')" "fst c' = Inside"
      by (auto split: if_splits sum.splits)
    from p Pair assms(2) have g: "thread g = NotStarted" "tmpdir g = d"
      "fs g = insert (d @ ''/fifo.json'') (insert d f)"
      by (simp_all add: sg_inv_def)
    from g(1) c'(1) have "snd c' = g\<lparr>thread := Running\<rparr>"
      by (simp add: sg_enter_def)
    with g c'(2) show ?thesis
      by (cases c') (simp add: sg_inv_def)
  next
    case (Produce pr)
    with Pair assms(3) have run: "thread g = Running" and c': "c' = (p, sg_run pr g)"
      by (auto split: if_splits)
    from run Pair assms(2) have
      "fs g = insert (d @ ''/fifo.json'') (insert d f)" and "tmpdir g = d" and "p = Inside"
      by (auto simp: sg_inv_def split: pc.splits)
    with c' sg_run_keeps [of g d f pr] show ?thesis
      by (simp add: sg_inv_def)
  next
    case Release
    with Pair assms(3) obtain g' e where p: "p = Inside" and ex: "sg_exit g = Some (g', e)"
      and c': "c' = (After e, g')"
      by (auto split: if_splits option.splits)
    from p Pair assms(2) have g: "fs g = insert (d @ ''/fifo.json'') (insert d f)" "tmpdir g = d"
      "thread g \<noteq> NotStarted"
      by (auto simp: sg_inv_def)
    from ex obtain r where r: "thread g = Finished r"
      using g(3) by (cases "thread g") (auto simp: sg_exit_def)
    from sg_exit_clean [OF assms(1) g(1,2) r] ex have "g' = g\<lparr>fs := f\<rparr>" and "e = None"
      by simp_all
    with c' g r show ?thesis
      by (simp add: sg_inv_def)
  qed
qed

lemma sg_exec_inv:
  assumes "fresh d f"
  shows "sg_inv d f c \<Longrightarrow> sg_exec acts c = Some c' \<Longrightarrow> sg_inv d f c'"
proof (induction acts arbitrary: c)
  case Nil
  then show ?case by simp
next
  case (Cons a acts)
  from Cons.prems(2) obtain c1 where 1: "sg_step a c = Some c1" and 2: "sg_exec acts c1 = Some c'"
    by (auto split: option.splits)
  from sg_step_inv [OF assms Cons.prems(1) 1] have "sg_inv d f c1" .
  from Cons.IH [OF this 2] show ?case .
qed

lemma fresh_fifo: "fresh d f \<Longrightarrow> d @ ''/fifo.json'' \<notin> f"
  by (auto simp: fresh_def)

lemma sg_exec_whole:
  assumes "fresh d f" and "sg_init f d = Inr g0"
  shows "sg_exec [Enter, Produce pr, Release] (Before, g0) =
     Some (After None, \<lparr>fs = f, tmpdir = d, thread = Finished (snd pr), channel = fst pr\<rparr>)"
proof -
  from assms sg_init_fresh [OF assms(1)]
  have g: "g0 = \<lparr>fs = insert (d @ ''/fifo.json'') (insert d f), tmpdir = d, thread = NotStarted,
      channel = []\<rparr>"
    by simp
  let ?g1 = "g0\<lparr>thread := Running\<rparr>"
  let ?g2 = "?g1\<lparr>channel := channel ?g1 @ fst pr, thread := Finished (snd pr)\<rparr>"
  have 1: "sg_step Enter (Before, g0) = Some (Inside, ?g1)"
    using g by (simp add: sg_enter_def)
  have "sg_run pr ?g1 = ?g2"
    using g by (intro sg_run_keeps [where d = d and f = f]) simp_all
  then have 2: "sg_step (Produce pr) (Inside, ?g1) = Some (Inside, ?g2)"
    by simp
  have "sg_exit ?g2 = Some (?g2\<lparr>fs := f\<rparr>, None)"
    using g by (intro sg_exit_clean [OF assms(1), where r = "snd pr"]) simp_all
  then have 3: "sg_step Release (Inside, ?g2) = Some (After None, ?g2\<lparr>fs := f\<rparr>)"
    by simp
  have "?g2\<lparr>fs := f\<rparr> = \<lparr>fs = f, tmpdir = d, thread = Finished (snd pr), channel = fst pr\<rparr>"
    using g by simp
  with 1 2 3 show ?thesis
    by simp
qed

lemma ev_fresh: "fresh ''/tmp/x'' {}"
  by (simp add: fresh_def)

lemma ev_init:
  "sg_init {} ''/tmp/x'' =
     Inr \<lparr>fs = {''/tmp/x/fifo.json'', ''/tmp/x''}, tmpdir = ''/tmp/x'', thread = NotStarted,
          channel = []\<rparr>"
  by (simp add: sg_init_fresh [OF ev_fresh])

lemma ev_run_body: "run_body [''IndexCollection.java Indexing Complete documents indexed''] 0 = SystemExit 0"
  by (simp add: run_body_def ev_complete resolve_def)

text \<open>
  C2. A stream generator is made in a new temporary directory, and the main flow and the
  producer thread then run in any order, the producer writing anything and ending
  normally or by an exception. Before and inside the \<^verbatim>\<open>with\<close> block, the channel file and
  its directory exist. After the block, \<^verbatim>\<open>__exit__\<close> has raised nothing, both are gone,
  and the file system is what it was before the generator was made. Whenever one of the
  two is missing, the producer thread has finished: inside the block, \<^verbatim>\<open>__exit__\<close> waits
  while the thread runs, and removes both once it has finished.
\<close>

theorem stream_generator_lifecycle:
  assumes "fresh d f" and "sg_init f d = Inr g0" and "sg_exec acts (Before, g0) = Some (p, g)"
  shows "(p = Before \<or> p = Inside \<longrightarrow> filepath g \<in> fs g \<and> tmpdir g \<in> fs g)
     \<and> (\<forall>e. p = After e \<longrightarrow> e = None \<and> filepath g \<notin> fs g \<and> tmpdir g \<notin> fs g \<and> fs g = f)
     \<and> (filepath g \<notin> fs g \<or> tmpdir g \<notin> fs g \<longrightarrow> (\<exists>r. thread g = Finished r))
     \<and> (p = Inside \<and> thread g = Running \<longrightarrow> sg_step Release (p, g) = None)
     \<and> (p = Inside \<longrightarrow>
          (\<forall>r. thread g = Finished r \<longrightarrow> sg_step Release (p, g) = Some (After None, g\<lparr>fs := f\<rparr>)))"
proof -
  from sg_exec_inv [OF assms(1) sg_inv_init [OF assms(1,2)] assms(3)]
  have inv: "sg_inv d f (p, g)" .
  have nf: "d @ ''/fifo.json'' \<notin> f" "d \<notin> f"
    using assms(1) fresh_fifo by (auto simp: fresh_def)
  show ?thesis
  proof (cases p)
    case Before
    with inv show ?thesis by (auto simp: sg_inv_def filepath_def)
  next
    case Inside
    with inv have g: "fs g = insert (d @ ''/fifo.json'') (insert d f)" "tmpdir g = d"
      by (auto simp: sg_inv_def)
    have "sg_step Release (Inside, g) = Some (After None, g\<lparr>fs := f\<rparr>)" if "thread g = Finished r" for r
      using sg_exit_clean [OF assms(1) g that] by simp
    moreover have "sg_step Release (Inside, g) = None" if "thread g = Running"
      using that by (simp add: sg_exit_def)
    ultimately show ?thesis
      using Inside g by (auto simp: filepath_def)
  next
    case (After e)
    with inv nf show ?thesis by (auto simp: sg_inv_def filepath_def)
  qed
qed

theorem stream_generator_lifecycle_witness:
  "fresh ''/tmp/x'' {}
   \<and> sg_init {} ''/tmp/x'' =
       Inr \<lparr>fs = {''/tmp/x/fifo.json'', ''/tmp/x''}, tmpdir = ''/tmp/x'', thread = NotStarted,
            channel = []\<rparr>
   \<and> sg_exec [Enter]
        (Before, \<lparr>fs = {''/tmp/x/fifo.json'', ''/tmp/x''}, tmpdir = ''/tmp/x'',
                  thread = NotStarted, channel = []\<rparr>) =
       Some (Inside, \<lparr>fs = {''/tmp/x/fifo.json'', ''/tmp/x''}, tmpdir = ''/tmp/x'',
                      thread = Running, channel = []\<rparr>)
   \<and> ''/tmp/x/fifo.json'' \<in> {''/tmp/x/fifo.json'', ''/tmp/x''}
   \<and> sg_step Release
        (Inside, \<lparr>fs = {''/tmp/x/fifo.json'', ''/tmp/x''}, tmpdir = ''/tmp/x'',
                  thread = Running, channel = []\<rparr>) = None
   \<and> sg_exec [Enter, Produce (''abc'', Some ValueError), Release]
        (Before, \<lparr>fs = {''/tmp/x/fifo.json'', ''/tmp/x''}, tmpdir = ''/tmp/x'',
                  thread = NotStarted, channel = []\<rparr>) =
       Some (After None, \<lparr>fs = {}, tmpdir = ''/tmp/x'', thread = Finished (Some ValueError),
                          channel = ''abc''\<rparr>)
   \<and> filepath \<lparr>fs = {}, tmpdir = ''/tmp/x'', thread = Finished (Some ValueError),
                channel = ''abc''\<rparr> \<notin> {}"
proof -
  let ?g0 = "\<lparr>fs = {''/tmp/x/fifo.json'', ''/tmp/x''}, tmpdir = ''/tmp/x'', thread = NotStarted,
            channel = []\<rparr>"
  let ?g1 = "\<lparr>fs = {''/tmp/x/fifo.json'', ''/tmp/x''}, tmpdir = ''/tmp/x'', thread = Running,
            channel = []\<rparr>"
  let ?g3 = "\<lparr>fs = {}, tmpdir = ''/tmp/x'', thread = Finished (Some ValueError),
            channel = ''abc''\<rparr>"
  have e1: "sg_exec [Enter] (Before, ?g0) = Some (Inside, ?g1)"
    by (simp add: sg_enter_def)
  have e3: "sg_exec [Enter, Produce (''abc'', Some ValueError), Release] (Before, ?g0) =
      Some (After None, ?g3)"
    using sg_exec_whole [OF ev_fresh ev_init, of "(''abc'', Some ValueError)"] by simp
  from stream_generator_lifecycle [OF ev_fresh ev_init e1]
    stream_generator_lifecycle [OF ev_fresh ev_init e3]
  show ?thesis
    using ev_fresh ev_init e1 e3 by (simp add: filepath_def)
qed

subsection \<open>A producer that fails\<close>

text \<open>
  C3, as amended. When the producer raises an exception \<open>e\<close> after writing \<open>w\<close>, the
  exception ends the producer thread and stays in its status; \<^verbatim>\<open>__exit__\<close> joins the
  thread, removes the channel and its directory and returns normally, so what leaves
  \<^verbatim>\<open>run\<close> is the exception of the \<^verbatim>\<open>with\<close> block (the exit status resolved from the
  child), not \<open>e\<close>.
\<close>

theorem producer_error_stays_in_thread:
  assumes "fresh d f" and "sg_init f d = Inr g0"
  shows "sg_exec [Enter, Produce (w, Some e), Release] (Before, g0) =
       Some (After None, \<lparr>fs = f, tmpdir = d, thread = Finished (Some e), channel = w\<rparr>)
     \<and> run (Stream g0) (Some (w, Some e)) lines rc = Some (run_body lines rc)"
  using sg_exec_whole [OF assms, of "(w, Some e)"] run_stream_fresh [OF assms]
  by simp

theorem producer_error_stays_in_thread_witness:
  "fresh ''/tmp/x'' {}
   \<and> sg_init {} ''/tmp/x'' =
       Inr \<lparr>fs = {''/tmp/x/fifo.json'', ''/tmp/x''}, tmpdir = ''/tmp/x'', thread = NotStarted,
            channel = []\<rparr>
   \<and> sg_exec [Enter, Produce (''abc'', Some ValueError), Release]
        (Before, \<lparr>fs = {''/tmp/x/fifo.json'', ''/tmp/x''}, tmpdir = ''/tmp/x'',
                  thread = NotStarted, channel = []\<rparr>) =
       Some (After None, \<lparr>fs = {}, tmpdir = ''/tmp/x'', thread = Finished (Some ValueError),
                          channel = ''abc''\<rparr>)
   \<and> run (Stream \<lparr>fs = {''/tmp/x/fifo.json'', ''/tmp/x''}, tmpdir = ''/tmp/x'',
                  thread = NotStarted, channel = []\<rparr>) (Some (''abc'', Some ValueError))
        [''IndexCollection.java Indexing Complete documents indexed''] 0 = Some (SystemExit 0)"
  using producer_error_stays_in_thread [OF ev_fresh ev_init, of "''abc''" ValueError
      "[''IndexCollection.java Indexing Complete documents indexed'']" 0]
    ev_fresh ev_init ev_run_body
  by simp

text \<open>
  The claim as stated fails: the producer raises \<^verbatim>\<open>ValueError\<close> on the second line of
  its source, after one object; \<^verbatim>\<open>__exit__\<close> returns normally all the same, and with a
  child that prints the completion line and returns 0, \<^verbatim>\<open>run\<close> ends by \<^verbatim>\<open>sys.exit(0)\<close>.
\<close>

theorem failed_producer_exit_zero:
  \<open>csv_generator [9] 8 [code_points ''d1'' @ [9] @ code_points ''a'' @ [10], code_points ''d2'' @ [10]] =
     (''{"id": "d1", "contents": "a"}\<newline>'', Some ValueError)
   \<and> sg_exec [Enter, Produce (''{"id": "d1", "contents": "a"}\<newline>'', Some ValueError), Release]
        (Before, \<lparr>fs = {''/tmp/x/fifo.json'', ''/tmp/x''}, tmpdir = ''/tmp/x'',
                  thread = NotStarted, channel = []\<rparr>) =
       Some (After None, \<lparr>fs = {}, tmpdir = ''/tmp/x'', thread = Finished (Some ValueError),
                          channel = ''{"id": "d1", "contents": "a"}\<newline>''\<rparr>)
   \<and> run (Stream \<lparr>fs = {''/tmp/x/fifo.json'', ''/tmp/x''}, tmpdir = ''/tmp/x'',
                  thread = NotStarted, channel = []\<rparr>)
        (Some (''{"id": "d1", "contents": "a"}\<newline>'', Some ValueError))
        [''IndexCollection.java Indexing Complete documents indexed''] 0 = Some (SystemExit 0)\<close>
proof -
  have "[9] \<noteq> ([]::nat list)" and "(8::int) \<noteq> 0"
    by simp_all
  from csv_generator_second_fails [OF this ev_strip(3) ev_no_tab(1), of "code_points ''d2'' @ [10]" "[]"]
    ev_strip(2) ev_no_tab(4)
  have "csv_generator [9] 8 [code_points ''d1'' @ [9] @ code_points ''a'' @ [10], code_points ''d2'' @ [10]] =
     (json_dump_doc (code_points ''d1'') (code_points ''a'') @ ''\<newline>'', Some ValueError)"
    by simp
  then show ?thesis
    using sg_exec_whole [OF ev_fresh ev_init]  run_stream_fresh [OF ev_fresh ev_init] ev_run_body
    by (simp add: ev_json)
qed

section \<open>The dispatcher\<close>

lemma register_all_result:
  "register_all rs reg0 = Inr reg \<Longrightarrow>
   reg = reg0 @ rs \<and> distinct (map fst rs) \<and> fst ` set rs \<inter> fst ` set reg0 = {}"
proof (induction rs arbitrary: reg0)
  case Nil
  then show ?case by simp
next
  case (Cons r rs)
  obtain T h where r: "r = (T, h)" by (cases r)
  with Cons.prems have T: "T \<notin> fst ` set reg0" and rest: "register_all rs (reg0 @ [(T, h)]) = Inr reg"
    by (auto simp: register_def split: if_splits)
  from Cons.IH [OF rest] T r show ?case
    by auto
qed

text \<open>
  C9. In a registry built by registrations that all succeeded, dispatching a value whose
  type has a registered handler returns what that handler returns on the value, and
  dispatching a value whose type has none fails with \<^verbatim>\<open>UnsupportedVariant\<close> of that type.
\<close>

theorem dispatch_exact:
  assumes "register_all regs [] = Inr reg"
  shows "(\<forall>T h. (T, h) \<in> set regs \<and> type_of v = T \<longrightarrow> dispatch type_of reg v = Inr (h v))
     \<and> (type_of v \<notin> fst ` set regs \<longrightarrow>
          dispatch type_of reg v = Inl (UnsupportedVariant (type_of v)))"
proof -
  from register_all_result [OF assms] have reg: "reg = regs" and d: "distinct (map fst regs)"
    by simp_all
  have "map_of regs T = Some h" if "(T, h) \<in> set regs" for T h
    using d that by (rule map_of_is_SomeI)
  moreover have "map_of regs T = None" if "T \<notin> fst ` set regs" for T
    using that by (simp add: map_of_eq_None_iff)
  ultimately show ?thesis
    by (auto simp: dispatch_def reg)
qed

theorem dispatch_exact_witness:
  "register_all [(''TipsterCollection'', \<lambda>v::string \<times> string. ''trec_collection''),
                 (''AdhocDocuments'', \<lambda>v. ''csv_collection'')] [] =
     Inr [(''TipsterCollection'', \<lambda>v::string \<times> string. ''trec_collection''),
          (''AdhocDocuments'', \<lambda>v. ''csv_collection'')]
   \<and> dispatch fst [(''TipsterCollection'', \<lambda>v::string \<times> string. ''trec_collection''),
                    (''AdhocDocuments'', \<lambda>v. ''csv_collection'')]
        (''AdhocDocuments'', ''docs.tsv'') = Inr ''csv_collection''
   \<and> dispatch fst [(''TipsterCollection'', \<lambda>v::string \<times> string. ''trec_collection''),
                    (''AdhocDocuments'', \<lambda>v. ''csv_collection'')]
        (''TrecAdhocTopics'', ''topics'') = Inl (UnsupportedVariant ''TrecAdhocTopics'')"
proof -
  let ?regs = "[(''TipsterCollection'', \<lambda>v::string \<times> string. ''trec_collection''),
                (''AdhocDocuments'', \<lambda>v. ''csv_collection'')]"
  have h: "register_all ?regs [] = Inr ?regs"
    by (simp add: register_def)
  have m: "(''AdhocDocuments'', \<lambda>v::string \<times> string. ''csv_collection'') \<in> set ?regs"
    by simp
  have n: "''TrecAdhocTopics'' \<notin> fst ` set ?regs"
    by simp
  from dispatch_exact [OF h, of fst "(''AdhocDocuments'', ''docs.tsv'')"] m
  have 1: "dispatch fst ?regs (''AdhocDocuments'', ''docs.tsv'') = Inr ''csv_collection''"
    by (metis fst_conv)
  from dispatch_exact [OF h, of fst "(''TrecAdhocTopics'', ''topics'')"] n
  have 2: "dispatch fst ?regs (''TrecAdhocTopics'', ''topics'') = Inl (UnsupportedVariant ''TrecAdhocTopics'')"
    by (metis fst_conv)
  from h 1 2 show ?thesis
    by blast
qed

end
